theory Spec2Isabelle
  imports Main "HOL-Library.Multiset"
begin

section \<open>The data model of fsm.go\<close>

text \<open>
  \<^verbatim>\<open>type StateNode int\<close> and \<^verbatim>\<open>type EventType int\<close> are used only as map keys
  and are compared by equality; no arithmetic is done on them, so the width of Go's
  \<^verbatim>\<open>int\<close> plays no role and both are modelled by \<^typ>\<open>int\<close>.
\<close>

type_synonym StateNode = int

type_synonym EventType = int

text \<open>
  An \<^verbatim>\<open>Event\<close> is a non-nil interface value: \<^verbatim>\<open>Type()\<close> gives its event type and
  \<^verbatim>\<open>Unwrap()\<close> its payload, of a type \<open>'p\<close> that the machine never inspects.
\<close>

record 'p Event =
  Type :: EventType
  Unwrap :: 'p

text \<open>
  A \<^verbatim>\<open>Callback\<close> is a Go closure \<^verbatim>\<open>func(Event) bool\<close>, or nil (\<open>None\<close>). \<^verbatim>\<open>NewFSM\<close>
  stores callbacks and never calls one, so the records of the package are written over
  a type \<open>'c\<close> of callback functions. Two such types follow.

  A closure may read and write state outside the machine. That state is the world \<open>'w\<close>.
  A callback that does no more than that, and returns, is a function from the event and
  the world to its boolean and the world it leaves behind (\<open>Callback_fn\<close>). The fields of
  \<^verbatim>\<open>stateMachineImpl\<close> are unexported and are not part of the world.
\<close>

type_synonym ('p, 'w) Callback_fn = "'p Event \<Rightarrow> 'w \<Rightarrow> bool \<times> 'w"

type_synonym ('p, 'w) Callback = "('p, 'w) Callback_fn option"

text \<open>
  A closure may also hold the machine it is registered with and call \<^verbatim>\<open>Emit\<close> on it
  while it runs. Such a callback is described by what it does step by step: it either
  returns its boolean, leaving a world (\<open>Return\<close>), or it calls \<^verbatim>\<open>m.Emit\<close> with an event,
  having brought the world to some value, and goes on from the boolean that this call
  returns and from the world that it leaves (\<open>Reenter\<close>). Calls of \<^verbatim>\<open>CurrentState\<close> from a
  callback write nothing and are not represented.
\<close>

datatype ('p, 'w) behaviour =
    Return bool 'w
  | Reenter "'p Event" 'w "bool \<Rightarrow> 'w \<Rightarrow> ('p, 'w) behaviour"

type_synonym ('p, 'w) Reentrant_fn = "'p Event \<Rightarrow> 'w \<Rightarrow> ('p, 'w) behaviour"

record 'c TransEdge =
  From :: StateNode
  Event :: EventType
  To :: StateNode
  Callback :: "'c option"

record 'c stateInfo =
  state :: StateNode
  cb :: "'c option"

text \<open>
  \<^verbatim>\<open>map[StateNode]map[EventType]stateInfo\<close>: a map of maps. A state that has no inner
  table is \<open>None\<close> at the outer level.
\<close>

type_synonym 'c transTable = "EventType \<rightharpoonup> 'c stateInfo"

type_synonym 'c graph = "StateNode \<rightharpoonup> 'c transTable"

record 'c stateMachineImpl =
  graph :: "'c graph"
  current :: StateNode
  ignore :: "'c option"

text \<open>The only error of the package: \<^verbatim>\<open>errors.New("invalid fsm")\<close>.\<close>

datatype error = invalid_fsm

section \<open>NewFSM\<close>

text \<open>
  The body of the \<^verbatim>\<open>for _, edge := range edges\<close> loop, on the graph built so far.
  When \<^verbatim>\<open>m.graph[edge.From]\<close> is missing, a fresh inner table is stored in the graph
  before the duplicate check. \<^verbatim>\<open>transTable\<close> is a reference to the inner table held by
  the graph, so the assignment \<^verbatim>\<open>transTable[edge.Event] = ...\<close> updates the graph.
\<close>

definition add_edge ::
  "'c graph \<Rightarrow> 'c TransEdge \<Rightarrow> error + 'c graph" where
  "add_edge g edge =
     (let (transTable, g1) =
            (case g (From edge) of
               None \<Rightarrow> (Map.empty, g(From edge \<mapsto> Map.empty))
             | Some tt \<Rightarrow> (tt, g))
      in case transTable (Event edge) of
           Some _ \<Rightarrow> Inl invalid_fsm
         | None \<Rightarrow>
             Inr (g1(From edge \<mapsto>
                    transTable(Event edge \<mapsto> \<lparr>state = To edge, cb = Callback edge\<rparr>))))"

text \<open>The loop itself; the first duplicate returns the error and ends the loop.\<close>

fun add_edges ::
  "'c graph \<Rightarrow> 'c TransEdge list \<Rightarrow> error + 'c graph" where
  "add_edges g [] = Inr g"
| "add_edges g (edge # edges) =
     (case add_edge g edge of
        Inl err \<Rightarrow> Inl err
      | Inr g' \<Rightarrow> add_edges g' edges)"

text \<open>
  \<^verbatim>\<open>NewFSM\<close> returns \<^verbatim>\<open>(nil, err)\<close> or \<^verbatim>\<open>(m, nil)\<close>: the sum type has the error on the
  left, without a machine, and the machine on the right.
\<close>

definition NewFSM ::
  "StateNode \<Rightarrow> 'c TransEdge list \<Rightarrow> 'c option \<Rightarrow> error + 'c stateMachineImpl" where
  "NewFSM st edges ign =
     (case add_edges Map.empty edges of
        Inl err \<Rightarrow> Inl err
      | Inr g \<Rightarrow> Inr \<lparr>graph = g, current = st, ignore = ign\<rparr>)"

section \<open>Emit with callbacks that leave the machine alone, and CurrentState\<close>

text \<open>
  \<^verbatim>\<open>m.graph[m.current][t]\<close> with the comma-ok form: indexing a missing (nil) inner map
  gives \<^verbatim>\<open>ok = false\<close>.
\<close>

definition lookup ::
  "'c graph \<Rightarrow> StateNode \<Rightarrow> EventType \<Rightarrow> 'c stateInfo option" where
  "lookup g s t = (case g s of None \<Rightarrow> None | Some tt \<Rightarrow> tt t)"

text \<open>
  What a call leaves behind is observed in two ways: the world after the call, and the
  list of callback invocations the call made, in order, each with the event it was given.
\<close>

datatype 'p invocation = ignore_called "'p Event" | guard_called "'p Event"

record ('c, 'p, 'w) outcome =
  returned :: bool
  machine :: "'c stateMachineImpl"
  world :: 'w
  calls :: "'p invocation list"

text \<open>
  \<^verbatim>\<open>Emit\<close> on a machine whose callbacks are of type \<open>Callback_fn\<close>: none of them calls
  back into the machine.
\<close>

definition Emit ::
  "('p, 'w) Callback_fn stateMachineImpl \<Rightarrow> 'p Event \<Rightarrow> 'w
     \<Rightarrow> (('p, 'w) Callback_fn, 'p, 'w) outcome" where
  "Emit m e w =
     (let t = Type e in
      case lookup (graph m) (current m) t of
        None \<Rightarrow>
          (case ignore m of
             Some ign \<Rightarrow>
               \<lparr>returned = False, machine = m, world = snd (ign e w),
                calls = [ignore_called e]\<rparr>
           | None \<Rightarrow> \<lparr>returned = False, machine = m, world = w, calls = []\<rparr>)
      | Some nextState \<Rightarrow>
          (case cb nextState of
             Some allowTrans \<Rightarrow>
               (let (allowed, w') = allowTrans e w in
                if allowed
                then \<lparr>returned = True, machine = m\<lparr>current := state nextState\<rparr>,
                      world = w', calls = [guard_called e]\<rparr>
                else \<lparr>returned = False, machine = m, world = w',
                      calls = [guard_called e]\<rparr>)
           | None \<Rightarrow>
               \<lparr>returned = True, machine = m\<lparr>current := state nextState\<rparr>,
                world = w, calls = []\<rparr>))"

text \<open>
  \<^verbatim>\<open>CurrentState\<close> in the same form as \<^verbatim>\<open>Emit\<close>: the value it returns, the machine and
  the world it leaves, and the callbacks it invoked.
\<close>

record ('c, 'p, 'w) read_outcome =
  value_read :: StateNode
  machine_after :: "'c stateMachineImpl"
  world_after :: 'w
  calls_made :: "'p invocation list"

definition CurrentState ::
  "('p, 'w) Callback_fn stateMachineImpl \<Rightarrow> 'w
     \<Rightarrow> (('p, 'w) Callback_fn, 'p, 'w) read_outcome" where
  "CurrentState m w =
     \<lparr>value_read = current m, machine_after = m, world_after = w, calls_made = []\<rparr>"


section \<open>Sequences of calls\<close>

text \<open>
  A caller emitting a list of events one after the other on the same machine: each call
  starts from the machine and the world the previous call left. The run collects the
  boolean of every call, the machine and the world at the end, and all callback
  invocations in order.
\<close>

record ('c, 'p, 'w) run =
  results :: "bool list"
  final :: "'c stateMachineImpl"
  final_world :: 'w
  invocations :: "'p invocation list"

fun EmitAll ::
  "('p, 'w) Callback_fn stateMachineImpl \<Rightarrow> 'p Event list \<Rightarrow> 'w
     \<Rightarrow> (('p, 'w) Callback_fn, 'p, 'w) run" where
  "EmitAll m [] w = \<lparr>results = [], final = m, final_world = w, invocations = []\<rparr>"
| "EmitAll m (e # es) w =
     (let r = Emit m e w;
          rest = EmitAll (machine r) es (world r)
      in \<lparr>results = returned r # results rest, final = final rest,
          final_world = final_world rest, invocations = calls r @ invocations rest\<rparr>)"

text \<open>
  The destinations of the calls of a run that returned true, in order: the destination
  of a call is the \<^verbatim>\<open>state\<close> field of the table entry that the call found for the state
  the machine was in and the type of the event.
\<close>

fun destinations ::
  "('p, 'w) Callback_fn stateMachineImpl \<Rightarrow> 'p Event list \<Rightarrow> 'w \<Rightarrow> StateNode list" where
  "destinations m [] w = []"
| "destinations m (e # es) w =
     (let r = Emit m e w
      in (if returned r
          then (case lookup (graph m) (current m) (Type e) of
                  Some entry \<Rightarrow> [state entry]
                | None \<Rightarrow> [])
          else [])
         @ destinations (machine r) es (world r))"

section \<open>Emit with callbacks that call back into the machine\<close>

text \<open>
  \<^verbatim>\<open>Emit\<close> on a machine whose callbacks are of type \<open>Reentrant_fn\<close>. The three paths are
  those of the source; where the source calls a callback, \<open>run_callback\<close> carries out what
  the callback does, and a \<open>Reenter\<close> step runs \<^verbatim>\<open>Emit\<close> on the machine in the state the
  steps before have left it in. The entry (and with it the destination) is looked up
  before the guard is called, and \<^verbatim>\<open>m.current = state\<close> is executed after the guard has
  returned, on the machine as the guard has left it.

  Nothing in the source bounds the nesting: a guard that emits the event it guards calls
  itself without end (in Go, until the stack is exhausted). The first argument bounds
  the number of nested steps; the result is \<open>None\<close> when the bound is reached, and
  \<open>Some\<close> of the outcome when the call returns within it. The \<open>calls\<close> of an outcome list
  the invocations of the nested calls as well, in the order in which they start.
\<close>

fun Emit_reentrant ::
  "nat \<Rightarrow> ('p, 'w) Reentrant_fn stateMachineImpl \<Rightarrow> 'p Event \<Rightarrow> 'w
     \<Rightarrow> (('p, 'w) Reentrant_fn, 'p, 'w) outcome option"
and run_callback ::
  "nat \<Rightarrow> ('p, 'w) Reentrant_fn stateMachineImpl \<Rightarrow> ('p, 'w) behaviour
     \<Rightarrow> (('p, 'w) Reentrant_fn, 'p, 'w) outcome option" where
  "Emit_reentrant 0 m e w = None"
| "Emit_reentrant (Suc n) m e w =
     (let t = Type e in
      case lookup (graph m) (current m) t of
        None \<Rightarrow>
          (case ignore m of
             Some ign \<Rightarrow>
               (case run_callback n m (ign e w) of
                  None \<Rightarrow> None
                | Some r \<Rightarrow>
                    Some \<lparr>returned = False, machine = machine r, world = world r,
                          calls = ignore_called e # calls r\<rparr>)
           | None \<Rightarrow> Some \<lparr>returned = False, machine = m, world = w, calls = []\<rparr>)
      | Some nextState \<Rightarrow>
          (case cb nextState of
             Some allowTrans \<Rightarrow>
               (case run_callback n m (allowTrans e w) of
                  None \<Rightarrow> None
                | Some r \<Rightarrow>
                    if returned r
                    then Some \<lparr>returned = True,
                               machine = (machine r)\<lparr>current := state nextState\<rparr>,
                               world = world r, calls = guard_called e # calls r\<rparr>
                    else Some \<lparr>returned = False, machine = machine r, world = world r,
                               calls = guard_called e # calls r\<rparr>)
           | None \<Rightarrow>
               Some \<lparr>returned = True, machine = m\<lparr>current := state nextState\<rparr>,
                     world = w, calls = []\<rparr>))"
| "run_callback n m (Return b w) =
     Some \<lparr>returned = b, machine = m, world = w, calls = []\<rparr>"
| "run_callback 0 m (Reenter e w k) = None"
| "run_callback (Suc n) m (Reenter e w k) =
     (case Emit_reentrant n m e w of
        None \<Rightarrow> None
      | Some r \<Rightarrow>
          (case run_callback n (machine r) (k (returned r) (world r)) of
             None \<Rightarrow> None
           | Some r' \<Rightarrow>
               Some \<lparr>returned = returned r', machine = machine r', world = world r',
                     calls = calls r @ calls r'\<rparr>))"








text \<open>
  A callback of type \<open>Callback_fn\<close> as one of type \<open>Reentrant_fn\<close> that returns at once,
  and a machine with such callbacks as a machine of the general kind.
\<close>

definition plain_fn :: "('p, 'w) Callback_fn \<Rightarrow> ('p, 'w) Reentrant_fn" where
  "plain_fn f e w = (case f e w of (b, w') \<Rightarrow> Return b w')"

definition plain_info ::
  "('p, 'w) Callback_fn stateInfo \<Rightarrow> ('p, 'w) Reentrant_fn stateInfo" where
  "plain_info entry = \<lparr>state = state entry, cb = map_option plain_fn (cb entry)\<rparr>"

definition plain_machine ::
  "('p, 'w) Callback_fn stateMachineImpl \<Rightarrow> ('p, 'w) Reentrant_fn stateMachineImpl" where
  "plain_machine m =
     \<lparr>graph = (\<lambda>s. map_option (\<lambda>tt t. map_option plain_info (tt t)) (graph m s)),
      current = current m,
      ignore = map_option plain_fn (ignore m)\<rparr>"

section \<open>The table that NewFSM builds, in closed form\<close>

text \<open>
  The key and the table entry of an edge, and the graph that adding a list of edges with
  pairwise distinct, fresh keys to a graph \<open>g\<close> gives: every source state of the list has
  an inner table, which holds the entries of the list on top of those of \<open>g\<close>.
\<close>

definition edge_key :: "'c TransEdge \<Rightarrow> StateNode \<times> EventType" where
  "edge_key edge = (From edge, Event edge)"

definition edge_info :: "'c TransEdge \<Rightarrow> 'c stateInfo" where
  "edge_info edge = \<lparr>state = To edge, cb = Callback edge\<rparr>"

definition graph_of :: "'c graph \<Rightarrow> 'c TransEdge list \<Rightarrow> 'c graph" where
  "graph_of g edges =
     (\<lambda>s. if s \<in> From ` set edges
          then Some (\<lambda>t. case map_of (map (\<lambda>edge. (edge_key edge, edge_info edge)) edges) (s, t) of
                            Some i \<Rightarrow> Some i
                          | None \<Rightarrow> lookup g s t)
          else g s)"


section \<open>A worked example: a turnstile\<close>

text \<open>
  State 0 is locked and state 1 is unlocked. A coin (event type 1) unlocks the locked
  turnstile and is accepted again when it is already unlocked (a self-loop); a push
  (event type 2) locks it again, behind a guard that always accepts; a kick (event
  type 3) on the locked turnstile is registered behind a guard that always declines.
  The world is a counter that the ignore hook increments. \<open>turnstile\<close> is the machine
  that \<^verbatim>\<open>NewFSM\<close> builds from these edges, written out.
\<close>

definition coin :: "unit Event" where
  "coin = \<lparr>Type = 1, Unwrap = ()\<rparr>"

definition push :: "unit Event" where
  "push = \<lparr>Type = 2, Unwrap = ()\<rparr>"

definition kick :: "unit Event" where
  "kick = \<lparr>Type = 3, Unwrap = ()\<rparr>"

definition count_ignored :: "(unit, nat) Callback_fn" where
  "count_ignored e w = (True, Suc w)"

definition always :: "bool \<Rightarrow> (unit, nat) Callback_fn" where
  "always b e w = (b, w)"

definition turnstile_edges :: "(unit, nat) Callback_fn TransEdge list" where
  "turnstile_edges =
     [\<lparr>From = 0, Event = 1, To = 1, Callback = None\<rparr>,
      \<lparr>From = 1, Event = 2, To = 0, Callback = Some (always True)\<rparr>,
      \<lparr>From = 1, Event = 1, To = 1, Callback = None\<rparr>,
      \<lparr>From = 0, Event = 3, To = 1, Callback = Some (always False)\<rparr>]"

definition turnstile :: "(unit, nat) Callback_fn stateMachineImpl" where
  "turnstile =
     \<lparr>graph = [1 \<mapsto> [2 \<mapsto> \<lparr>state = 0, cb = Some (always True)\<rparr>,
                      1 \<mapsto> \<lparr>state = 1, cb = None\<rparr>],
               0 \<mapsto> [1 \<mapsto> \<lparr>state = 1, cb = None\<rparr>,
                      3 \<mapsto> \<lparr>state = 1, cb = Some (always False)\<rparr>]],
      current = 0, ignore = Some count_ignored\<rparr>"





section \<open>Callbacks that emit on their own machine\<close>












section \<open>Properties of NewFSM\<close>

text \<open>
  Adding one edge fails exactly when the graph already has an entry for the edge's key;
  adding a list succeeds exactly when its keys are pairwise distinct and fresh, and then
  gives the closed form.
\<close>

lemma add_edge_dup:
  "lookup g (From edge) (Event edge) \<noteq> None \<Longrightarrow> add_edge g edge = Inl invalid_fsm"
  by (auto simp: add_edge_def lookup_def split: option.splits)

lemma add_edge_fresh:
  "lookup g (From edge) (Event edge) = None \<Longrightarrow>
   add_edge g edge = Inr (graph_of g [edge])"
proof (cases "g (From edge)")
  case None
  then show ?thesis
    by (auto simp: add_edge_def graph_of_def edge_key_def edge_info_def lookup_def fun_eq_iff)
next
  case (Some tt)
  assume "lookup g (From edge) (Event edge) = None"
  with Some have "tt (Event edge) = None" by (simp add: lookup_def)
  with Some show ?thesis
    by (auto simp: add_edge_def graph_of_def edge_key_def edge_info_def lookup_def fun_eq_iff)
qed

lemma lookup_graph_of:
  "lookup (graph_of g edges) s t =
     (case map_of (map (\<lambda>edge. (edge_key edge, edge_info edge)) edges) (s, t) of
        Some i \<Rightarrow> Some i
      | None \<Rightarrow> lookup g s t)"
proof (cases "s \<in> From ` set edges")
  case True
  then show ?thesis by (simp add: graph_of_def lookup_def)
next
  case False
  then have "(s, t) \<notin> edge_key ` set edges"
    by (auto simp: edge_key_def)
  then have "map_of (map (\<lambda>edge. (edge_key edge, edge_info edge)) edges) (s, t) = None"
    by (simp add: map_of_eq_None_iff image_image)
  with False show ?thesis by (simp add: graph_of_def lookup_def)
qed

lemma graph_of_in:
  "s \<in> From ` set edges \<Longrightarrow>
   graph_of g edges s =
     Some (\<lambda>t. case map_of (map (\<lambda>edge. (edge_key edge, edge_info edge)) edges) (s, t) of
                   Some i \<Rightarrow> Some i
                 | None \<Rightarrow> lookup g s t)"
  by (simp add: graph_of_def)

lemma graph_of_notin:
  "s \<notin> From ` set edges \<Longrightarrow> graph_of g edges s = g s"
  by (simp add: graph_of_def)

lemma graph_of_Cons:
  "edge_key edge \<notin> edge_key ` set edges \<Longrightarrow>
   graph_of (graph_of g [edge]) edges = graph_of g (edge # edges)"
proof (rule ext)
  fix s
  assume fresh: "edge_key edge \<notin> edge_key ` set edges"
  let ?al = "map (\<lambda>edge. (edge_key edge, edge_info edge)) edges"
  have none: "map_of ?al (edge_key edge) = None"
    using fresh by (simp add: map_of_eq_None_iff image_image)
  show "graph_of (graph_of g [edge]) edges s = graph_of g (edge # edges) s"
  proof (cases "s \<in> From ` set edges")
    case True
    have "\<And>t. (case map_of ?al (s, t) of Some i \<Rightarrow> Some i | None \<Rightarrow> lookup (graph_of g [edge]) s t)
        = (case map_of ((edge_key edge, edge_info edge) # ?al) (s, t) of Some i \<Rightarrow> Some i | None \<Rightarrow> lookup g s t)"
      using none by (auto simp: lookup_graph_of split: option.splits)
    moreover from True have "s \<in> From ` set (edge # edges)" by auto
    ultimately show ?thesis using True by (simp only: graph_of_in list.map)
  next
    case False
    then have nones: "\<And>t. map_of ?al (s, t) = None"
      by (auto simp: map_of_eq_None_iff image_image edge_key_def)
    then have rest: "\<And>t. (case map_of ?al (s, t) of Some i \<Rightarrow> Some i | None \<Rightarrow> lookup g s t) = lookup g s t"
      by simp
    show ?thesis
    proof (cases "s = From edge")
      case True
      then show ?thesis
        using False nones by (simp add: graph_of_notin graph_of_in cong: if_cong)
    next
      case neq: False
      with False have "s \<notin> From ` set (edge # edges)" by auto
      with False neq show ?thesis by (simp add: graph_of_notin)
    qed
  qed
qed

lemma add_edges_graph_of:
  "add_edges g edges =
     (if distinct (map edge_key edges) \<and> (\<forall>edge \<in> set edges. lookup g (From edge) (Event edge) = None)
      then Inr (graph_of g edges) else Inl invalid_fsm)"
proof (induction edges arbitrary: g)
  case Nil
  show ?case by (simp add: graph_of_def)
next
  case (Cons edge edges)
  show ?case
  proof (cases "lookup g (From edge) (Event edge)")
    case (Some i)
    then show ?thesis by (simp add: add_edge_dup)
  next
    case None
    have step: "add_edges g (edge # edges) = add_edges (graph_of g [edge]) edges"
      using None by (simp add: add_edge_fresh)
    have look: "\<And>e'. lookup (graph_of g [edge]) (From e') (Event e') = None \<longleftrightarrow>
        edge_key e' \<noteq> edge_key edge \<and> lookup g (From e') (Event e') = None"
      by (auto simp: lookup_graph_of edge_key_def)
    have fresh: "(\<forall>e' \<in> set edges. edge_key e' \<noteq> edge_key edge) \<longleftrightarrow>
        edge_key edge \<notin> edge_key ` set edges"
      by (auto simp: image_iff)
    show ?thesis
    proof (cases "edge_key edge \<in> edge_key ` set edges")
      case True
      then show ?thesis
        unfolding step Cons.IH look using fresh by auto
    next
      case False
      then show ?thesis
        unfolding step Cons.IH look using None fresh
        by (simp add: graph_of_Cons)
    qed
  qed
qed


lemma dup_index_conv:
  "(\<exists>i j. i < j \<and> j < length edges \<and> From (edges ! i) = From (edges ! j)
           \<and> Event (edges ! i) = Event (edges ! j))
   \<longleftrightarrow> \<not> distinct (map edge_key edges)"
proof -
  have "\<not> distinct (map edge_key edges) \<longleftrightarrow>
        (\<exists>i j. i < length edges \<and> j < length edges \<and> i \<noteq> j \<and> edge_key (edges ! i) = edge_key (edges ! j))"
    by (auto simp: distinct_conv_nth)
  also have "\<dots> \<longleftrightarrow> (\<exists>i j. i < j \<and> j < length edges \<and> edge_key (edges ! i) = edge_key (edges ! j))"
    (is "?L \<longleftrightarrow> ?R")
  proof
    assume ?L
    then obtain i j where ij: "i < length edges" "j < length edges" "i \<noteq> j"
        "edge_key (edges ! i) = edge_key (edges ! j)" by blast
    show ?R
    proof (cases "i < j")
      case True with ij show ?thesis by blast
    next
      case False
      with ij have "j < i" by simp
      with ij show ?thesis by metis
    qed
  next
    assume ?R
    then obtain i j where "i < j" "j < length edges" "edge_key (edges ! i) = edge_key (edges ! j)"
      by blast
    then have "i < length edges \<and> j < length edges \<and> i \<noteq> j \<and> edge_key (edges ! i) = edge_key (edges ! j)"
      by simp
    then show ?L by blast
  qed
  finally show ?thesis by (simp add: edge_key_def)
qed

lemma turnstile_built: "NewFSM 0 turnstile_edges (Some count_ignored) = Inr turnstile"
  by (simp add: NewFSM_def turnstile_edges_def turnstile_def add_edge_def)

lemmas turnstile_simps =
  turnstile_def turnstile_edges_def coin_def push_def kick_def count_ignored_def always_def
  Emit_def lookup_def Let_def

text \<open>
  C1. \<^verbatim>\<open>NewFSM\<close> returns the error, and no machine, exactly when two positions of the edge
  list carry the same \<^verbatim>\<open>From\<close> and the same \<^verbatim>\<open>Event\<close>, whatever their \<^verbatim>\<open>To\<close> and
  \<^verbatim>\<open>Callback\<close>; it returns a machine exactly when no two positions do, and that machine
  starts in the given state with the given ignore hook.
\<close>

theorem NewFSM_fails_iff_duplicate:
  "(NewFSM st edges ign = Inl invalid_fsm \<longleftrightarrow>
      (\<exists>i j. i < j \<and> j < length edges \<and> From (edges ! i) = From (edges ! j)
             \<and> Event (edges ! i) = Event (edges ! j)))
   \<and> ((\<exists>m. NewFSM st edges ign = Inr m \<and> current m = st \<and> ignore m = ign) \<longleftrightarrow>
      \<not> (\<exists>i j. i < j \<and> j < length edges \<and> From (edges ! i) = From (edges ! j)
               \<and> Event (edges ! i) = Event (edges ! j)))"
  unfolding dup_index_conv
  by (simp add: NewFSM_def add_edges_graph_of lookup_def)

text \<open>
  The turnstile edges build a machine; with a fifth edge that repeats the key of the
  second one (state 1, event type 2) with another destination and no guard, construction
  fails.
\<close>

theorem NewFSM_fails_iff_duplicate_witness:
  "NewFSM 0 (turnstile_edges @ [\<lparr>From = 1, Event = 2, To = 5, Callback = None\<rparr>]) None
     = Inl invalid_fsm
   \<and> (\<exists>m. NewFSM 0 turnstile_edges (Some count_ignored) = Inr m
          \<and> current m = 0 \<and> ignore m = Some count_ignored)"
proof -
  let ?bad = "turnstile_edges @ [\<lparr>From = 1, Event = 2, To = 5, Callback = None\<rparr>]"
  have "(1::nat) < 4 \<and> (4::nat) < length ?bad
      \<and> From (?bad ! 1) = From (?bad ! 4) \<and> Event (?bad ! 1) = Event (?bad ! 4)"
    by (simp add: turnstile_edges_def)
  then have dup: "\<exists>i j. i < j \<and> j < length ?bad
      \<and> From (?bad ! i) = From (?bad ! j) \<and> Event (?bad ! i) = Event (?bad ! j)"
    by blast
  have nodup: "\<not> (\<exists>i j. i < j \<and> j < length turnstile_edges
      \<and> From (turnstile_edges ! i) = From (turnstile_edges ! j)
      \<and> Event (turnstile_edges ! i) = Event (turnstile_edges ! j))"
    unfolding dup_index_conv by (simp add: turnstile_edges_def edge_key_def)
  from NewFSM_fails_iff_duplicate [of 0 ?bad None] dup
  have "NewFSM 0 ?bad None = Inl invalid_fsm" by blast
  moreover from NewFSM_fails_iff_duplicate [of 0 turnstile_edges "Some count_ignored"] nodup
  have "\<exists>m. NewFSM 0 turnstile_edges (Some count_ignored) = Inr m
          \<and> current m = 0 \<and> ignore m = Some count_ignored" by blast
  ultimately show ?thesis by blast
qed

text \<open>
  Two lists with the same edges in another order have the same keys, and with pairwise
  distinct keys the same closed form.
\<close>

lemma graph_of_perm:
  assumes "mset edges1 = mset edges2" and "distinct (map edge_key edges1)"
  shows "graph_of g edges1 = graph_of g edges2"
proof -
  let ?al = "\<lambda>edges. map (\<lambda>edge. (edge_key edge, edge_info edge)) edges"
  have sets: "set edges1 = set edges2"
    using assms(1) by (rule mset_eq_setD)
  have "mset (map edge_key edges1) = mset (map edge_key edges2)"
    using assms(1) by simp
  with assms(2) have "distinct (map edge_key edges2)"
    by (metis distinct_count_atmost_1 set_mset_mset)
  then have d2: "distinct (map fst (?al edges2))" by (simp add: comp_def)
  have d1: "distinct (map fst (?al edges1))" using assms(2) by (simp add: comp_def)
  have "set (?al edges1) = set (?al edges2)" using sets by simp
  with d1 d2 have "map_of (?al edges1) = map_of (?al edges2)"
    by (simp add: map_of_inject_set)
  with sets show ?thesis by (simp add: graph_of_def cong: if_cong)
qed

lemma add_edges_perm:
  assumes "mset edges1 = mset edges2"
  shows "add_edges g edges1 = add_edges g edges2"
proof -
  have sets: "set edges1 = set edges2"
    using assms by (rule mset_eq_setD)
  have "mset (map edge_key edges1) = mset (map edge_key edges2)"
    using assms by simp
  then have dist: "distinct (map edge_key edges1) \<longleftrightarrow> distinct (map edge_key edges2)"
    by (metis distinct_count_atmost_1 set_mset_mset)
  show ?thesis
  proof (cases "distinct (map edge_key edges1)")
    case True
    with assms have "graph_of g edges1 = graph_of g edges2" by (rule graph_of_perm)
    with dist sets show ?thesis by (simp add: add_edges_graph_of)
  next
    case False
    with dist show ?thesis by (simp add: add_edges_graph_of)
  qed
qed

text \<open>
  C10. Construction does not depend on the order of the edge list: for two edge lists
  that are permutations of each other, \<^verbatim>\<open>NewFSM\<close> fails on one exactly when it fails on the
  other, and when both succeed the two machines have the same transition table and give
  the same run (results, final machine, final world and callback invocations) on every
  list of events from every world.
\<close>

theorem NewFSM_order_insensitive:
  assumes "mset edges1 = mset edges2"
  shows "(isl (NewFSM st edges1 ign) \<longleftrightarrow> isl (NewFSM st edges2 ign))
       \<and> (\<forall>m1 m2. NewFSM st edges1 ign = Inr m1 \<and> NewFSM st edges2 ign = Inr m2 \<longrightarrow>
             graph m1 = graph m2
           \<and> (\<forall>evs w. EmitAll m1 evs w = EmitAll m2 evs w))"
proof -
  have "NewFSM st edges1 ign = NewFSM st edges2 ign"
    using add_edges_perm [OF assms] by (simp add: NewFSM_def)
  then show ?thesis by auto
qed

text \<open>
  The turnstile edges and the same edges in reverse order: both constructions succeed
  and give one table.
\<close>

theorem NewFSM_order_insensitive_witness:
  "mset turnstile_edges = mset (rev turnstile_edges)
   \<and> (\<exists>m1 m2. NewFSM 0 turnstile_edges (Some count_ignored) = Inr m1
              \<and> NewFSM 0 (rev turnstile_edges) (Some count_ignored) = Inr m2
              \<and> graph m1 = graph m2
              \<and> (\<forall>evs w. EmitAll m1 evs w = EmitAll m2 evs w))"
proof -
  have h: "mset turnstile_edges = mset (rev turnstile_edges)"
    by simp
  note perm = NewFSM_order_insensitive [OF h, of 0 "Some count_ignored"]
  have "\<not> isl (NewFSM 0 turnstile_edges (Some count_ignored))"
    by (simp add: turnstile_built)
  with perm have "\<not> isl (NewFSM 0 (rev turnstile_edges) (Some count_ignored))"
    by blast
  then obtain m2 where m2: "NewFSM 0 (rev turnstile_edges) (Some count_ignored) = Inr m2"
    by (cases "NewFSM 0 (rev turnstile_edges) (Some count_ignored)") simp_all
  from perm turnstile_built m2
  have "graph turnstile = graph m2 \<and> (\<forall>evs w. EmitAll turnstile evs w = EmitAll m2 evs w)"
    by blast
  with h turnstile_built m2 show ?thesis by blast
qed

section \<open>Properties of Emit\<close>

text \<open>
  The three ways through \<^verbatim>\<open>Emit\<close>: no entry, an entry without a guard, an entry with
  a guard.
\<close>

lemma Emit_no_entry:
  "lookup (graph m) (current m) (Type e) = None \<Longrightarrow>
   Emit m e w =
     (case ignore m of
        Some ign \<Rightarrow> \<lparr>returned = False, machine = m, world = snd (ign e w), calls = [ignore_called e]\<rparr>
      | None \<Rightarrow> \<lparr>returned = False, machine = m, world = w, calls = []\<rparr>)"
  by (simp add: Emit_def)

lemma Emit_unguarded:
  "lookup (graph m) (current m) (Type e) = Some entry \<Longrightarrow> cb entry = None \<Longrightarrow>
   Emit m e w = \<lparr>returned = True, machine = m\<lparr>current := state entry\<rparr>, world = w, calls = []\<rparr>"
  by (simp add: Emit_def)

lemma Emit_guarded:
  "lookup (graph m) (current m) (Type e) = Some entry \<Longrightarrow> cb entry = Some guard \<Longrightarrow>
   Emit m e w =
     (if fst (guard e w)
      then \<lparr>returned = True, machine = m\<lparr>current := state entry\<rparr>, world = snd (guard e w),
            calls = [guard_called e]\<rparr>
      else \<lparr>returned = False, machine = m, world = snd (guard e w), calls = [guard_called e]\<rparr>)"
  by (simp add: Emit_def split: prod.splits)



text \<open>
  C8. \<^verbatim>\<open>Emit\<close> writes at most the \<^verbatim>\<open>current\<close> field: the graph and the ignore hook of
  the machine are the same before and after every call, whatever it returns.
\<close>

theorem Emit_frame:
  "graph (machine (Emit m e w)) = graph m \<and> ignore (machine (Emit m e w)) = ignore m"
  by (auto simp: Emit_def split: option.splits prod.splits if_splits)

text \<open>
  A coin on the locked turnstile changes the current state, and neither the graph nor
  the hook.
\<close>

theorem Emit_frame_witness:
  "graph (machine (Emit turnstile coin 0)) = graph turnstile
   \<and> ignore (machine (Emit turnstile coin 0)) = Some count_ignored
   \<and> current (machine (Emit turnstile coin 0)) \<noteq> current turnstile"
proof -
  have "ignore turnstile = Some count_ignored" by (simp add: turnstile_def)
  moreover have "current (machine (Emit turnstile coin 0)) \<noteq> current turnstile"
    by (simp add: turnstile_simps)
  ultimately show ?thesis using Emit_frame [of turnstile coin 0] by simp
qed

section \<open>Properties of sequences of calls\<close>






text \<open>
  A call that returns true found an entry and moved to its destination; a call that
  returns false leaves the machine alone. So the current state after a run is the last
  destination of a successful call, or the state at the start when there is none.
\<close>

lemma Emit_returned_dest:
  "returned (Emit m e w) \<Longrightarrow>
   \<exists>entry. lookup (graph m) (current m) (Type e) = Some entry
          \<and> current (machine (Emit m e w)) = state entry"
  by (auto simp: Emit_def split: option.splits prod.splits if_splits)

lemma Emit_not_returned: "\<not> returned (Emit m e w) \<Longrightarrow> machine (Emit m e w) = m"
  by (auto simp: Emit_def split: option.splits prod.splits if_splits)

lemma current_final_EmitAll:
  "current (final (EmitAll m evs w)) = last (current m # destinations m evs w)"
proof (induction evs arbitrary: m w)
  case Nil
  show ?case by simp
next
  case (Cons e evs)
  let ?r = "Emit m e w"
  note IH = Cons.IH [of "machine ?r" "world ?r"]
  show ?case
  proof (cases "returned ?r")
    case True
    from Emit_returned_dest [OF True]
    obtain entry where entry: "lookup (graph m) (current m) (Type e) = Some entry"
      and cur: "current (machine ?r) = state entry"
      by (elim exE conjE)
    have "destinations m (e # evs) w = state entry # destinations (machine ?r) evs (world ?r)"
      using True entry by (simp add: Let_def)
    moreover have "final (EmitAll m (e # evs) w) = final (EmitAll (machine ?r) evs (world ?r))"
      by (simp add: Let_def)
    ultimately show ?thesis using IH cur by simp
  next
    case False
    then have "machine ?r = m" by (rule Emit_not_returned)
    have "destinations m (e # evs) w = destinations (machine ?r) evs (world ?r)"
      using False by (simp add: Let_def)
    moreover have "final (EmitAll m (e # evs) w) = final (EmitAll (machine ?r) evs (world ?r))"
      by (simp add: Let_def)
    ultimately show ?thesis using IH \<open>machine ?r = m\<close> by simp
  qed
qed

lemma NewFSM_current: "NewFSM st edges ign = Inr m \<Longrightarrow> current m = st"
  by (auto simp: NewFSM_def split: sum.splits)

text \<open>
  C9. \<^verbatim>\<open>CurrentState\<close> only reads: it leaves the machine and the world as they are and
  invokes no callback. On a machine built by \<^verbatim>\<open>NewFSM\<close> and then given any list of
  events, it returns the destination of the latest \<^verbatim>\<open>Emit\<close> call that returned true, or
  the initial state passed to \<^verbatim>\<open>NewFSM\<close> when no call returned true.
\<close>

theorem CurrentState_reads_latest:
  assumes "NewFSM st edges ign = Inr m"
  shows "CurrentState (final (EmitAll m evs w)) w' =
           \<lparr>value_read = last (st # destinations m evs w),
            machine_after = final (EmitAll m evs w), world_after = w', calls_made = []\<rparr>"
  using NewFSM_current [OF assms]
  by (simp add: CurrentState_def current_final_EmitAll)

text \<open>
  The turnstile after coin, push, coin and a kick that is not accepted (the unlocked
  state has no entry for it): the successful calls went to 1, 0 and 1, and the state read
  is 1. With no call at all the state read is the initial state 0.
\<close>

theorem CurrentState_reads_latest_witness:
  "NewFSM 0 turnstile_edges (Some count_ignored) = Inr turnstile
   \<and> destinations turnstile [coin, push, coin, kick] 0 = [1, 0, 1]
   \<and> returned (Emit (final (EmitAll turnstile [coin, push, coin] 0)) kick 0) = False
   \<and> CurrentState (final (EmitAll turnstile [coin, push, coin, kick] 0)) 7 =
       \<lparr>value_read = 1, machine_after = final (EmitAll turnstile [coin, push, coin, kick] 0),
        world_after = 7, calls_made = []\<rparr>
   \<and> value_read (CurrentState (final (EmitAll turnstile [] 0)) 7) = 0"
proof -
  have h: "NewFSM 0 turnstile_edges (Some count_ignored) = Inr turnstile"
    by (rule turnstile_built)
  have d: "destinations turnstile [coin, push, coin, kick] 0 = [1, 0, 1]"
    by (simp add: turnstile_simps)
  have r: "returned (Emit (final (EmitAll turnstile [coin, push, coin] 0)) kick 0) = False"
    by (simp add: turnstile_simps)
  from CurrentState_reads_latest [OF h, of "[coin, push, coin, kick]" 0 7]
    CurrentState_reads_latest [OF h, of "[]" 0 7] h d r
  show ?thesis by simp
qed

section \<open>Properties of Emit with callbacks that call back into the machine\<close>


lemma Emit_reentrant_no_entry_no_hook:
  "lookup (graph m) (current m) (Type e) = None \<Longrightarrow> ignore m = None \<Longrightarrow>
   Emit_reentrant (Suc n) m e w =
     Some \<lparr>returned = False, machine = m, world = w, calls = []\<rparr>"
  by simp

lemma Emit_reentrant_no_entry_hook:
  "lookup (graph m) (current m) (Type e) = None \<Longrightarrow> ignore m = Some ign \<Longrightarrow>
   ign e w = Return b w' \<Longrightarrow>
   Emit_reentrant (Suc n) m e w =
     Some \<lparr>returned = False, machine = m, world = w', calls = [ignore_called e]\<rparr>"
  by simp

lemma Emit_reentrant_unguarded:
  "lookup (graph m) (current m) (Type e) = Some entry \<Longrightarrow> cb entry = None \<Longrightarrow>
   Emit_reentrant (Suc n) m e w =
     Some \<lparr>returned = True, machine = m\<lparr>current := state entry\<rparr>, world = w, calls = []\<rparr>"
  by simp

lemma Emit_reentrant_guarded:
  "lookup (graph m) (current m) (Type e) = Some entry \<Longrightarrow> cb entry = Some guard \<Longrightarrow>
   guard e w = Return b w' \<Longrightarrow>
   Emit_reentrant (Suc n) m e w =
     (if b
      then Some \<lparr>returned = True, machine = m\<lparr>current := state entry\<rparr>, world = w',
                 calls = [guard_called e]\<rparr>
      else Some \<lparr>returned = False, machine = m, world = w', calls = [guard_called e]\<rparr>)"
  by simp

text \<open>
  A call that returns within a bound returns the same outcome within every larger one.
\<close>

lemma fuel_Suc:
  "(\<forall>(m :: ('p, 'w) Reentrant_fn stateMachineImpl) e w r.
      Emit_reentrant n m e w = Some r \<longrightarrow> Emit_reentrant (Suc n) m e w = Some r)
   \<and> (\<forall>(m :: ('p, 'w) Reentrant_fn stateMachineImpl) beh r.
      run_callback n m beh = Some r \<longrightarrow> run_callback (Suc n) m beh = Some r)"
proof (induction n)
  case 0
  have "\<And>(m :: ('p, 'w) Reentrant_fn stateMachineImpl) beh r.
      run_callback 0 m beh = Some r \<Longrightarrow> run_callback (Suc 0) m beh = Some r"
  proof -
    fix m :: "('p, 'w) Reentrant_fn stateMachineImpl" and beh r
    assume "run_callback 0 m beh = Some r"
    then show "run_callback (Suc 0) m beh = Some r" by (cases beh) simp_all
  qed
  then show ?case by (intro conjI allI impI) simp_all
next
  case (Suc n)
  note emitIH = Suc [THEN conjunct1, rule_format]
    and runIH = Suc [THEN conjunct2, rule_format]
  have emit: "Emit_reentrant (Suc (Suc n)) m e w = Some r"
    if "Emit_reentrant (Suc n) m e w = Some r"
    for m :: "('p, 'w) Reentrant_fn stateMachineImpl" and e w r
  proof (cases "lookup (graph m) (current m) (Type e)")
    case None
    show ?thesis
    proof (cases "ignore m")
      case hook: None
      with None that show ?thesis by simp
    next
      case (Some ign)
      with None that obtain r0 where "run_callback n m (ign e w) = Some r0"
        by (auto split: option.splits)
      with runIH have "run_callback (Suc n) m (ign e w) = Some r0" by blast
      with \<open>run_callback n m (ign e w) = Some r0\<close> None Some that show ?thesis by simp
    qed
  next
    case (Some entry)
    show ?thesis
    proof (cases "cb entry")
      case None
      with Some that show ?thesis by simp
    next
      case guard: (Some guard)
      with Some that obtain r0 where r0: "run_callback n m (guard e w) = Some r0"
        by (auto split: option.splits)
      with runIH have "run_callback (Suc n) m (guard e w) = Some r0" by blast
      with r0 Some guard that show ?thesis by simp
    qed
  qed
  have run: "run_callback (Suc (Suc n)) m beh = Some r"
    if "run_callback (Suc n) m beh = Some r"
    for m :: "('p, 'w) Reentrant_fn stateMachineImpl" and beh r
  proof (cases beh)
    case (Return b w)
    with that show ?thesis by simp
  next
    case (Reenter e w k)
    with that obtain r1 where r1: "Emit_reentrant n m e w = Some r1"
      by (auto split: option.splits)
    with that Reenter obtain r2 where r2: "run_callback n (machine r1) (k (returned r1) (world r1)) = Some r2"
      by (auto split: option.splits)
    from r1 emitIH have "Emit_reentrant (Suc n) m e w = Some r1" by blast
    moreover from r2 runIH
    have "run_callback (Suc n) (machine r1) (k (returned r1) (world r1)) = Some r2" by blast
    ultimately show ?thesis using that Reenter r1 r2 by simp
  qed
  from emit run show ?case by blast
qed

lemma Emit_reentrant_more_fuel:
  "Emit_reentrant n m e w = Some r \<Longrightarrow> Emit_reentrant (n + k) m e w = Some r"
proof (induction k)
  case 0
  then show ?case by simp
next
  case (Suc k)
  then have "Emit_reentrant (n + k) m e w = Some r" by simp
  then have "Emit_reentrant (Suc (n + k)) m e w = Some r"
    by (rule fuel_Suc [THEN conjunct1, rule_format])
  then show ?case by (simp only: add_Suc_right)
qed

text \<open>
  On a machine whose callbacks are of type \<open>Callback_fn\<close>, the general \<^verbatim>\<open>Emit\<close> is the
  \<^verbatim>\<open>Emit\<close> of the sections above.
\<close>

lemma plain_lookup:
  "lookup (graph (plain_machine m)) s t = map_option plain_info (lookup (graph m) s t)"
  by (simp add: plain_machine_def lookup_def split: option.splits)

lemma plain_fields:
  "current (plain_machine m) = current m"
  "ignore (plain_machine m) = map_option plain_fn (ignore m)"
  by (simp_all add: plain_machine_def)

lemma plain_machine_current: "plain_machine (m\<lparr>current := s\<rparr>) = (plain_machine m)\<lparr>current := s\<rparr>"
  by (simp add: plain_machine_def)

lemma Emit_reentrant_plain:
  "Emit_reentrant (Suc n) (plain_machine m) e w =
     Some \<lparr>returned = returned (Emit m e w), machine = plain_machine (machine (Emit m e w)),
           world = world (Emit m e w), calls = calls (Emit m e w)\<rparr>"
proof (cases "lookup (graph m) (current m) (Type e)")
  case None
  then have look: "lookup (graph (plain_machine m)) (current (plain_machine m)) (Type e) = None"
    by (simp add: plain_lookup plain_fields)
  show ?thesis
  proof (cases "ignore m")
    case hook: None
    then have "ignore (plain_machine m) = None" by (simp add: plain_fields)
    from Emit_reentrant_no_entry_no_hook [OF look this, of n w] None hook
    show ?thesis by (simp add: Emit_no_entry)
  next
    case (Some ign)
    obtain b w' where iw: "ign e w = (b, w')" by (cases "ign e w")
    from Some have h: "ignore (plain_machine m) = Some (plain_fn ign)"
      by (simp add: plain_fields)
    from iw have "plain_fn ign e w = Return b w'" by (simp add: plain_fn_def)
    from Emit_reentrant_no_entry_hook [OF look h this, of n] None Some iw
    show ?thesis by (simp add: Emit_no_entry)
  qed
next
  case (Some entry)
  then have look: "lookup (graph (plain_machine m)) (current (plain_machine m)) (Type e)
      = Some (plain_info entry)"
    by (simp add: plain_lookup plain_fields)
  show ?thesis
  proof (cases "cb entry")
    case None
    with Some have "Emit m e w =
        \<lparr>returned = True, machine = m\<lparr>current := state entry\<rparr>, world = w, calls = []\<rparr>"
      by (rule Emit_unguarded)
    moreover from None have "cb (plain_info entry) = None" "state (plain_info entry) = state entry"
      by (simp_all add: plain_info_def)
    ultimately show ?thesis
      using Emit_reentrant_unguarded [OF look, of n w]
      by (simp add: plain_machine_current)
  next
    case guard: (Some guard)
    obtain b w' where gw: "guard e w = (b, w')" by (cases "guard e w")
    from guard have c: "cb (plain_info entry) = Some (plain_fn guard)"
      and s: "state (plain_info entry) = state entry"
      by (simp_all add: plain_info_def)
    from gw have "plain_fn guard e w = Return b w'" by (simp add: plain_fn_def)
    from Emit_reentrant_guarded [OF look c this, of n] Emit_guarded [OF Some guard, of w] gw s
    show ?thesis by (simp add: plain_machine_current)
  qed
qed

text \<open>
  Three facts that do not depend on what the callbacks do. A call that found an entry and
  returns true leaves the machine in the destination of that entry, since the assignment
  to \<^verbatim>\<open>m.current\<close> follows the guard. No call, nested or not, changes the graph or the
  ignore hook. On an empty table every call that returns, returns false and leaves the
  machine as it was.
\<close>

lemma Emit_reentrant_transition:
  fixes m :: "('p, 'w) Reentrant_fn stateMachineImpl"
  assumes "lookup (graph m) (current m) (Type e) = Some entry"
    and "Emit_reentrant n m e w = Some r" and "returned r"
  shows "current (machine r) = state entry"
proof (cases n)
  case 0
  with assms(2) show ?thesis by simp
next
  case (Suc k)
  with assms show ?thesis
    by (cases "cb entry") (auto split: option.splits if_splits)
qed

lemma reentrant_frame:
  "(\<forall>(m :: ('p, 'w) Reentrant_fn stateMachineImpl) e w r.
      Emit_reentrant n m e w = Some r \<longrightarrow>
      graph (machine r) = graph m \<and> ignore (machine r) = ignore m)
   \<and> (\<forall>(m :: ('p, 'w) Reentrant_fn stateMachineImpl) beh r.
      run_callback n m beh = Some r \<longrightarrow>
      graph (machine r) = graph m \<and> ignore (machine r) = ignore m)"
proof (induction n)
  case 0
  have "graph (machine r) = graph m \<and> ignore (machine r) = ignore m"
    if "run_callback 0 m beh = Some r"
    for m :: "('p, 'w) Reentrant_fn stateMachineImpl" and beh r
    using that by (cases beh) auto
  then show ?case by (intro conjI allI impI) simp_all
next
  case (Suc n)
  note emitIH = Suc [THEN conjunct1, rule_format]
    and runIH = Suc [THEN conjunct2, rule_format]
  have emit: "graph (machine r) = graph m \<and> ignore (machine r) = ignore m"
    if "Emit_reentrant (Suc n) m e w = Some r"
    for m :: "('p, 'w) Reentrant_fn stateMachineImpl" and e w r
    using that runIH
    by (auto simp: Let_def split: option.splits if_splits)
  have run: "graph (machine r) = graph m \<and> ignore (machine r) = ignore m"
    if "run_callback (Suc n) m beh = Some r"
    for m :: "('p, 'w) Reentrant_fn stateMachineImpl" and beh r
  proof (cases beh)
    case (Return b w)
    with that show ?thesis by auto
  next
    case (Reenter e w k)
    with that obtain r1 r2 where r1: "Emit_reentrant n m e w = Some r1"
      and r2: "run_callback n (machine r1) (k (returned r1) (world r1)) = Some r2"
      and r: "machine r = machine r2"
      by (auto split: option.splits)
    from emitIH [OF r1] runIH [OF r2] r show ?thesis by simp
  qed
  from emit run show ?case by blast
qed

lemma reentrant_empty_table:
  "(\<forall>(m :: ('p, 'w) Reentrant_fn stateMachineImpl) e w r.
      graph m = Map.empty \<longrightarrow> Emit_reentrant n m e w = Some r \<longrightarrow>
      returned r = False \<and> machine r = m)
   \<and> (\<forall>(m :: ('p, 'w) Reentrant_fn stateMachineImpl) beh r.
      graph m = Map.empty \<longrightarrow> run_callback n m beh = Some r \<longrightarrow> machine r = m)"
proof (induction n)
  case 0
  have "machine r = m"
    if "run_callback 0 m beh = Some r"
    for m :: "('p, 'w) Reentrant_fn stateMachineImpl" and beh r
    using that by (cases beh) auto
  then show ?case by (intro conjI allI impI) simp_all
next
  case (Suc n)
  note emitIH = Suc [THEN conjunct1, rule_format]
    and runIH = Suc [THEN conjunct2, rule_format]
  have emit: "returned r = False \<and> machine r = m"
    if "graph m = Map.empty" "Emit_reentrant (Suc n) m e w = Some r"
    for m :: "('p, 'w) Reentrant_fn stateMachineImpl" and e w r
    using that runIH [OF that(1)]
    by (auto simp: Let_def lookup_def split: option.splits)
  have run: "machine r = m"
    if "graph m = Map.empty" "run_callback (Suc n) m beh = Some r"
    for m :: "('p, 'w) Reentrant_fn stateMachineImpl" and beh r
  proof (cases beh)
    case (Return b w)
    with that show ?thesis by auto
  next
    case (Reenter e w k)
    with that obtain r1 r2 where r1: "Emit_reentrant n m e w = Some r1"
      and r2: "run_callback n (machine r1) (k (returned r1) (world r1)) = Some r2"
      and r: "machine r = machine r2"
      by (auto split: option.splits)
    from emitIH [OF that(1) r1] have "machine r1 = m" by simp
    with runIH [OF _ r2] that(1) r show ?thesis by simp
  qed
  from emit run show ?case by blast
qed






















end
